theory Spec2Isabelle
  imports Main "HOL-Library.Word"
begin

section \<open>The byte stream, as a reader sees it\<close>

text \<open>
  A byte is an 8-bit word, a Python \<open>bytes\<close> value a list of them. A connected stream
  (the socket of the hex viewer, the \<open>StreamReader\<close> of the bridge) is modelled by what
  its successive read calls will meet: a chunk of bytes that has arrived, or an exception
  raised by the call. When nothing is left the peer has closed the connection and the read
  returns the empty byte string. \<open>recv n\<close> hands out at most \<open>n\<close> bytes of the chunk at
  the front and leaves the rest of it for the next call, so every way a stream can be cut
  into reads is one such list.
\<close>

type_synonym byte = "8 word"
type_synonym bytes = "byte list"

datatype 'e recv_event = Chunk bytes | Raise 'e

type_synonym 'e stream = "'e recv_event list"

fun recv :: "int \<Rightarrow> 'e stream \<Rightarrow> ('e + bytes) \<times> 'e stream" where
  "recv n [] = (Inr [], [])"
| "recv n (Raise e # rest) = (Inl e, rest)"
| "recv n (Chunk c # rest) =
     (if int (length c) \<le> n then (Inr c, rest)
      else (Inr (take (nat n) c), Chunk (drop (nat n) c) # rest))"

text \<open>The size of what a stream still holds; every read that returns data makes it smaller.\<close>

fun event_size :: "'e recv_event \<Rightarrow> nat" where
  "event_size (Chunk c) = Suc (length c)"
| "event_size (Raise e) = 1"

definition stream_size :: "'e stream \<Rightarrow> nat" where
  "stream_size s = sum_list (map event_size s)"

lemma recv_size:
  "recv n s = (r, s') \<Longrightarrow> stream_size s' \<le> stream_size s"
  by (induction n s rule: recv.induct) (auto simp: stream_size_def split: if_splits)

lemma recv_size_less:
  "recv n s = (r, s') \<Longrightarrow> 0 < n \<Longrightarrow> r \<noteq> Inr [] \<Longrightarrow> stream_size s' < stream_size s"
  by (induction n s rule: recv.induct) (auto simp: stream_size_def split: if_splits)

text \<open>Python's slice \<open>data[i:j]\<close> for \<open>0 \<le> i \<le> j\<close>: clipped at the end of the data.\<close>

definition slice :: "nat \<Rightarrow> nat \<Rightarrow> 'a list \<Rightarrow> 'a list" where
  "slice i j xs = take (j - i) (drop i xs)"

section \<open>The frame reader (dlt_hex_viewer.py)\<close>

text \<open>
  The exceptions that can leave \<open>read_dlt_packet\<close>: the socket's timeout (the viewer sets
  one of 5 seconds), another socket error, and the error of \<open>struct.unpack\<close>.
\<close>

datatype sock_exn = Timeout | OSError | StructError

type_synonym socket = "sock_exn stream"

text \<open>\<open>struct.unpack('>H', b)[0]\<close>: two bytes, big-endian, unsigned; any other size raises.\<close>

definition struct_unpack_H :: "bytes \<Rightarrow> sock_exn + int" where
  "struct_unpack_H b =
     (case b of [hi, lo] \<Rightarrow> Inr (uint hi * 256 + uint lo) | _ \<Rightarrow> Inl StructError)"

text \<open>What the viewer prints, as far as the reader and its loop are concerned.\<close>

datatype printed =
    InvalidMessageLength int
  | ConnectionClosedByDaemon
  | PacketInfo nat nat
  | ErrorReadingPacket sock_exn

text \<open>The loop of \<open>read_dlt_packet\<close> that reads the remaining bytes of a packet.\<close>

function read_remaining ::
  "int \<Rightarrow> bytes \<Rightarrow> socket \<Rightarrow> (sock_exn + bytes option) \<times> socket" where
  "read_remaining remaining message sock =
     (if remaining > 0 then
        (case recv remaining sock of
           (Inl e, sock') \<Rightarrow> (Inl e, sock')
         | (Inr chunk, sock') \<Rightarrow>
             if chunk = [] then (Inr None, sock')
             else read_remaining (remaining - int (length chunk)) (message @ chunk) sock')
      else (Inr (Some message), sock))"
  by pat_completeness auto
termination
  by (relation "measure (\<lambda>(remaining, message, sock). nat remaining)") auto

declare read_remaining.simps [simp del]

text \<open>
  \<open>read_dlt_packet\<close>: the result (a raised exception, \<open>None\<close> or the packet), what was
  printed, and the socket afterwards.
\<close>

definition read_dlt_packet :: "socket \<Rightarrow> (sock_exn + bytes option) \<times> printed list \<times> socket" where
  "read_dlt_packet sock =
     (case recv 4 sock of
        (Inl e, sock1) \<Rightarrow> (Inl e, [], sock1)
      | (Inr std_header, sock1) \<Rightarrow>
          if length std_header < 4 then (Inr None, [], sock1)
          else
            (case struct_unpack_H (slice 2 4 std_header) of
               Inl e \<Rightarrow> (Inl e, [], sock1)
             | Inr msg_len \<Rightarrow>
                 if msg_len < 4 \<or> msg_len > 65535
                 then (Inr None, [InvalidMessageLength msg_len], sock1)
                 else
                   (case read_remaining (msg_len - 4) std_header sock1 of
                      (r, sock2) \<Rightarrow> (r, [], sock2))))"

lemmas reader_eval = read_dlt_packet_def read_remaining.simps slice_def struct_unpack_H_def

lemma read_remaining_size:
  "read_remaining r m sock = (res, sock') \<Longrightarrow> stream_size sock' \<le> stream_size sock"
proof (induction r m sock rule: read_remaining.induct)
  case (1 remaining message sock)
  show ?case
  proof (cases "remaining > 0")
    case False
    with "1.prems" show ?thesis by (simp add: read_remaining.simps)
  next
    case True
    obtain x s1 where rc: "recv remaining sock = (x, s1)" by (cases "recv remaining sock")
    note le = recv_size [OF rc]
    show ?thesis
    proof (cases x)
      case (Inl e)
      with True rc "1.prems" le show ?thesis by (simp add: read_remaining.simps)
    next
      case (Inr chunk)
      show ?thesis
      proof (cases "chunk = []")
        case True
        with \<open>remaining > 0\<close> rc Inr "1.prems" le show ?thesis
          by (simp add: read_remaining.simps)
      next
        case False
        with \<open>remaining > 0\<close> rc Inr "1.prems"
        have "read_remaining (remaining - int (length chunk)) (message @ chunk) s1 = (res, sock')"
          by (simp add: read_remaining.simps)
        from "1.IH" [OF \<open>remaining > 0\<close> rc [symmetric] Inr False this] le
        show ?thesis by simp
      qed
    qed
  qed
qed

lemma read_dlt_packet_size:
  assumes "read_dlt_packet sock = (res, pr, sock')" and "res \<noteq> Inr None"
  shows "stream_size sock' < stream_size sock"
proof -
  obtain x s1 where rc: "recv 4 sock = (x, s1)" by (cases "recv 4 sock")
  show ?thesis
  proof (cases x)
    case (Inl e)
    with rc assms have "sock' = s1" by (simp add: read_dlt_packet_def)
    with recv_size_less [OF rc] Inl show ?thesis by simp
  next
    case (Inr h)
    with rc assms have h4: "\<not> length h < 4" by (auto simp: read_dlt_packet_def)
    then have "x \<noteq> Inr []" using Inr by auto
    from recv_size_less [OF rc _ this] have lt: "stream_size s1 < stream_size sock" by simp
    show ?thesis
    proof (cases "struct_unpack_H (slice 2 4 h)")
      case (Inl e)
      with rc Inr h4 assms have "sock' = s1" by (simp add: read_dlt_packet_def)
      with lt show ?thesis by simp
    next
      case un: (Inr n)
      with rc Inr h4 assms have rng: "\<not> (n < 4 \<or> n > 65535)"
        by (auto simp: read_dlt_packet_def)
      obtain r2 s2 where rr: "read_remaining (n - 4) h s1 = (r2, s2)"
        by (cases "read_remaining (n - 4) h s1")
      with rc Inr h4 un rng assms have "sock' = s2" by (simp add: read_dlt_packet_def)
      with read_remaining_size [OF rr] lt show ?thesis by simp
    qed
  qed
qed

text \<open>
  The packet loop of the viewer's \<open>main\<close>, from the connected socket on: \<open>None\<close> is
  reported as a closed connection and ends the loop, a timeout goes round again, any other
  exception is reported and ends the loop. It returns the packet count and what was printed
  (the hex dump of a packet is left out, only its number and size are kept).
\<close>

function main_loop :: "socket \<Rightarrow> nat \<Rightarrow> nat \<times> printed list" where
  "main_loop sock packet_count =
     (case read_dlt_packet sock of
        (Inr None, pr, sock') \<Rightarrow> (packet_count, pr @ [ConnectionClosedByDaemon])
      | (Inr (Some packet), pr, sock') \<Rightarrow>
          (case main_loop sock' (packet_count + 1) of
             (n, out) \<Rightarrow> (n, pr @ PacketInfo (packet_count + 1) (length packet) # out))
      | (Inl e, pr, sock') \<Rightarrow>
          if e = Timeout
          then (case main_loop sock' packet_count of (n, out) \<Rightarrow> (n, pr @ out))
          else (packet_count, pr @ [ErrorReadingPacket e]))"
  by pat_completeness auto
termination
proof (relation "measure (\<lambda>(sock, packet_count). stream_size sock)")
  show "wf (measure (\<lambda>(sock, packet_count). stream_size sock))" by simp
next
  fix sock :: socket and packet_count :: nat and x y pr sock' o1 packet
  assume "(x, y) = read_dlt_packet sock" "(pr, sock') = y" "x = Inr o1" "o1 = Some packet"
  then have "read_dlt_packet sock = (Inr (Some packet), pr, sock')" by simp
  from read_dlt_packet_size [OF this]
  show "((sock', packet_count + 1), sock, packet_count)
          \<in> measure (\<lambda>(sock, packet_count). stream_size sock)"
    by simp
next
  fix sock :: socket and packet_count :: nat and x y pr sock' e
  assume "(x, y) = read_dlt_packet sock" "(pr, sock') = y" "x = Inl e" "e = Timeout"
  then have "read_dlt_packet sock = (Inl Timeout, pr, sock')" by simp
  from read_dlt_packet_size [OF this]
  show "((sock', packet_count), sock, packet_count)
          \<in> measure (\<lambda>(sock, packet_count). stream_size sock)"
    by simp
qed

declare main_loop.simps [simp del]

section \<open>The ingest loop of the bridge (dlt_websocket_bridge.py, read_from_dlt)\<close>

text \<open>
  The exceptions the loop tells apart: cancellation, a refused connection, and every other
  exception. An attempt to connect either raises one of them or gives a stream to read.
\<close>

datatype aio_exn = CancelledError | ConnectionRefusedError | OtherError

type_synonym attempt = "aio_exn + aio_exn stream"

text \<open>
  What the loop does that can be seen from outside, in order: it tries to open a connection,
  has opened one (connections are numbered in the order they were opened), puts data into
  the message queue, sleeps for a number of seconds, closes the writer of a connection.
\<close>

datatype action = Connect | Connected nat | QueuePut bytes | Sleep nat | WriterClose nat

text \<open>
  The inner loop: \<open>reader.read(4096)\<close> until it returns no data or raises. It returns
  how the loop ended (\<open>None\<close>: the connection was closed) and the data it has put into
  the queue, in order.
\<close>

function read_loop :: "aio_exn stream \<Rightarrow> aio_exn option \<times> bytes list" where
  "read_loop reader =
     (case recv 4096 reader of
        (Inl e, reader') \<Rightarrow> (Some e, [])
      | (Inr data, reader') \<Rightarrow>
          if data = [] then (None, [])
          else (case read_loop reader' of (r, puts) \<Rightarrow> (r, data # puts)))"
  by pat_completeness auto
termination
proof (relation "measure stream_size")
  show "wf (measure stream_size)" by simp
next
  fix reader :: "aio_exn stream" and x reader' data
  assume "(x, reader') = recv 4096 reader" "x = Inr data" "data \<noteq> []"
  then have "recv 4096 reader = (Inr data, reader')" "Inr data \<noteq> (Inr [] :: aio_exn + bytes)"
    by simp_all
  from recv_size_less [OF this(1) _ this(2)]
  show "(reader', reader) \<in> measure stream_size" by simp
qed

declare read_loop.simps [simp del]

text \<open>
  The \<open>except\<close> clauses: what they do, and whether the outer loop goes on. Cancellation
  is modelled where the loop catches it, at the attempt to connect and at a read; the sleep
  is taken to complete.
\<close>

definition handlers :: "aio_exn \<Rightarrow> action list \<times> bool" where
  "handlers e =
     (if e = CancelledError then ([], False)
      else if e = ConnectionRefusedError then ([Sleep 5], True)
      else ([Sleep 5], True))"

text \<open>
  The \<open>finally\<close> clause. If the name \<open>writer\<close> is bound, which it is from the first
  successful connection on, also in later rounds whose connection failed, it closes the
  writer and awaits \<open>writer.wait_closed()\<close>. That call raises the exception with which the
  connection was lost, if there is one (\<open>lost\<close>): the stream protocol hands the exception
  of a lost connection both to the reader, whose \<open>read\<close> raises it, and to the future that
  \<open>wait_closed\<close> awaits. The result is the actions and the exception raised, if any.
\<close>

definition finally_close :: "nat option \<Rightarrow> aio_exn option \<Rightarrow> action list \<times> aio_exn option" where
  "finally_close writer lost =
     (case writer of None \<Rightarrow> ([], None) | Some w \<Rightarrow> ([WriterClose w], lost))"

text \<open>
  How the task stands after a round: the loop goes on, it was left by \<open>break\<close> and the
  task has returned, or an exception has left the loop and the task. An exception raised in
  the \<open>finally\<close> clause is caught by nothing.
\<close>

datatype task_end = Running | Returned | Uncaught aio_exn

definition round_end :: "bool \<Rightarrow> aio_exn option \<Rightarrow> task_end" where
  "round_end go_on raised =
     (case raised of Some x \<Rightarrow> Uncaught x | None \<Rightarrow> if go_on then Running else Returned)"

text \<open>
  One round of the outer loop, given the writer bound so far and the number of the next
  connection: its actions, how the task stands, and the two values afterwards. A connection
  on which a read raised an exception other than the cancellation of the task was lost with
  that exception; a connection that the upstream closed, and the writer of an earlier
  round, are closed without one.
\<close>

definition connect_once ::
  "attempt \<Rightarrow> nat option \<Rightarrow> nat \<Rightarrow> action list \<times> task_end \<times> nat option \<times> nat" where
  "connect_once a writer k =
     (case a of
        Inl e \<Rightarrow>
          (case handlers e of
             (acts, go_on) \<Rightarrow>
               (case finally_close writer None of
                  (closes, raised) \<Rightarrow>
                    (Connect # acts @ closes, round_end go_on raised, writer, k)))
      | Inr reader \<Rightarrow>
          (case read_loop reader of
             (None, puts) \<Rightarrow>
               (case finally_close (Some k) None of
                  (closes, raised) \<Rightarrow>
                    (Connect # Connected k # map QueuePut puts @ closes,
                     round_end True raised, Some k, k + 1))
           | (Some e, puts) \<Rightarrow>
               (case handlers e of
                  (acts, go_on) \<Rightarrow>
                    (case finally_close (Some k) (if e = CancelledError then None else Some e) of
                       (closes, raised) \<Rightarrow>
                         (Connect # Connected k # map QueuePut puts @ acts @ closes,
                          round_end go_on raised, Some k, k + 1)))))"

text \<open>
  The outer loop over the attempts the environment offers: the actions of the task and how
  it stands at the end. The loop of the source has no end of its own; the model stops
  where the listed attempts end, with the loop still running.
\<close>

fun read_from_dlt_from ::
  "attempt list \<Rightarrow> nat option \<Rightarrow> nat \<Rightarrow> action list \<times> task_end" where
  "read_from_dlt_from [] writer k = ([], Running)"
| "read_from_dlt_from (a # as) writer k =
     (case connect_once a writer k of
        (acts, ending, writer', k') \<Rightarrow>
          if ending = Running
          then (case read_from_dlt_from as writer' k' of
                  (acts', ending') \<Rightarrow> (acts @ acts', ending'))
          else (acts, ending))"

definition read_from_dlt :: "attempt list \<Rightarrow> action list" where
  "read_from_dlt as = fst (read_from_dlt_from as None 0)"

definition read_from_dlt_end :: "attempt list \<Rightarrow> task_end" where
  "read_from_dlt_end as = snd (read_from_dlt_from as None 0)"

text \<open>The data put into the message queue, in order.\<close>

fun queue_puts :: "action list \<Rightarrow> bytes list" where
  "queue_puts [] = []"
| "queue_puts (QueuePut d # as) = d # queue_puts as"
| "queue_puts (_ # as) = queue_puts as"

section \<open>The broadcaster and the client registry (broadcast_messages, websocket_handler)\<close>

text \<open>
  A websocket is known by its identity. \<open>websocket_clients\<close> is a Python set: a list that
  holds no websocket twice, in the order the set is iterated. \<open>sent\<close> is not a variable of
  the program: it records, in order, every \<open>ws.send(data)\<close> that succeeded.
\<close>

type_synonym ws = nat

record bridge =
  message_queue :: "bytes list"
  websocket_clients :: "ws list"
  sent :: "(ws \<times> bytes) list"
  broadcasting :: bool

definition set_add :: "ws \<Rightarrow> ws list \<Rightarrow> ws list" where
  "set_add w clients = (if w \<in> set clients then clients else clients @ [w])"

definition set_discard :: "ws \<Rightarrow> ws list \<Rightarrow> ws list" where
  "set_discard w clients = removeAll w clients"

text \<open>
  \<open>ws.send(data)\<close> succeeds, raises an exception that \<open>except Exception\<close> catches, or
  raises the cancellation of the task, which that clause does not catch.
\<close>

datatype send_outcome = Delivered | SendFailed | SendCancelled

text \<open>The \<open>for\<close> loop over the snapshot \<open>list(websocket_clients)\<close>.\<close>

fun send_to_all :: "(ws \<Rightarrow> send_outcome) \<Rightarrow> bytes \<Rightarrow> ws list \<Rightarrow> bridge \<Rightarrow> bridge" where
  "send_to_all send data [] st = st"
| "send_to_all send data (w # rest) st =
     (case send w of
        Delivered \<Rightarrow> send_to_all send data rest (st\<lparr>sent := sent st @ [(w, data)]\<rparr>)
      | SendFailed \<Rightarrow>
          send_to_all send data rest
            (st\<lparr>websocket_clients := set_discard w (websocket_clients st)\<rparr>)
      | SendCancelled \<Rightarrow> st\<lparr>broadcasting := False\<rparr>)"

text \<open>
  One round of the loop of \<open>broadcast_messages\<close>. With an empty queue the task stays
  blocked in \<open>get\<close>; once the task has been cancelled it does nothing any more. A round
  is taken as one step: what the other tasks do while a send is awaited takes effect
  between rounds.
\<close>

definition broadcast_messages :: "(ws \<Rightarrow> send_outcome) \<Rightarrow> bridge \<Rightarrow> bridge" where
  "broadcast_messages send st =
     (if \<not> broadcasting st then st
      else
        (case message_queue st of
           [] \<Rightarrow> st
         | data # q \<Rightarrow>
             (let st1 = st\<lparr>message_queue := q\<rparr>
              in if websocket_clients st1 \<noteq> []
                 then send_to_all send data (websocket_clients st1) st1
                 else st1)))"

text \<open>
  The events of the running bridge: the ingest loop puts data into the queue, a client
  connects (the handler adds it), a client's connection is closed (the handler discards
  it), the broadcaster does one round (with the outcome of each send), the broadcaster is
  cancelled while it waits for the queue.
\<close>

datatype event =
    Put bytes
  | ClientConnected ws
  | ClientClosed ws
  | Broadcast "ws \<Rightarrow> send_outcome"
  | CancelBroadcast

fun handle :: "event \<Rightarrow> bridge \<Rightarrow> bridge" where
  "handle (Put data) st = st\<lparr>message_queue := message_queue st @ [data]\<rparr>"
| "handle (ClientConnected w) st = st\<lparr>websocket_clients := set_add w (websocket_clients st)\<rparr>"
| "handle (ClientClosed w) st =
     st\<lparr>websocket_clients := set_discard w (websocket_clients st)\<rparr>"
| "handle (Broadcast send) st = broadcast_messages send st"
| "handle CancelBroadcast st = st\<lparr>broadcasting := False\<rparr>"

fun run :: "event list \<Rightarrow> bridge \<Rightarrow> bridge" where
  "run [] st = st"
| "run (e # es) st = run es (handle e st)"

text \<open>The state in which \<open>main\<close> starts the two tasks.\<close>

definition initial :: bridge where
  "initial = \<lparr>message_queue = [], websocket_clients = [], sent = [], broadcasting = True\<rparr>"

text \<open>What a websocket has received, in order.\<close>

definition delivered :: "ws \<Rightarrow> bridge \<Rightarrow> bytes list" where
  "delivered c st = map snd (filter (\<lambda>(w, d). w = c) (sent st))"

text \<open>The data that the events put into the queue, in order.\<close>

fun puts_of :: "event list \<Rightarrow> bytes list" where
  "puts_of [] = []"
| "puts_of (Put d # es) = d # puts_of es"
| "puts_of (_ # es) = puts_of es"

section \<open>Notions used to state the properties\<close>

text \<open>
  The Frame invariant of the data model: a frame is between 4 and 65535 bytes long and its
  bytes 2 and 3 hold that length, big-endian.
\<close>

definition frame_invariant :: "bytes \<Rightarrow> bool" where
  "frame_invariant f =
     (4 \<le> length f \<and> length f \<le> 65535 \<and> struct_unpack_H (slice 2 4 f) = Inr (int (length f)))"

text \<open>
  The bytes a stream delivers before it is closed, raises, or returns no data.
\<close>

fun stream_bytes :: "'e stream \<Rightarrow> bytes" where
  "stream_bytes [] = []"
| "stream_bytes (Raise e # rest) = []"
| "stream_bytes (Chunk c # rest) = (if c = [] then [] else c @ stream_bytes rest)"

text \<open>
  The number of rounds of the broadcaster, among the events, that find the queue non-empty,
  when the queue holds \<open>n\<close> entries at the start: a put adds an entry, a round that finds
  one takes it.
\<close>

fun rounds_served :: "nat \<Rightarrow> event list \<Rightarrow> nat" where
  "rounds_served n [] = 0"
| "rounds_served n (Put d # es) = rounds_served (Suc n) es"
| "rounds_served n (Broadcast send # es) =
     (case n of 0 \<Rightarrow> rounds_served 0 es | Suc m \<Rightarrow> Suc (rounds_served m es))"
| "rounds_served n (_ # es) = rounds_served n es"

lemmas ingest_eval =
  read_from_dlt_def read_from_dlt_end_def connect_once_def read_loop.simps handlers_def
  finally_close_def round_end_def

lemmas bridge_eval = broadcast_messages_def set_add_def set_discard_def delivered_def initial_def

section \<open>Properties of the frame reader\<close>

subsection \<open>Reads and the length field\<close>

lemma uint_byte_le: "uint (b :: byte) \<le> 255"
  using uint_bounded [of b] by simp

lemma struct_unpack_H_range:
  assumes "struct_unpack_H b = Inr n"
  shows "0 \<le> n \<and> n \<le> 65535"
proof -
  from assms obtain hi lo where "b = [hi, lo]" and n: "n = uint hi * 256 + uint lo"
    by (auto simp: struct_unpack_H_def split: list.splits)
  from uint_byte_le [of hi] uint_byte_le [of lo] n show ?thesis by simp
qed

lemma struct_unpack_H_two:
  assumes "length b = 2"
  shows "\<exists>n. struct_unpack_H b = Inr n"
proof -
  from assms obtain hi lo where "b = [hi, lo]"
    by (auto simp: length_Suc_conv numeral_2_eq_2)
  then show ?thesis by (simp add: struct_unpack_H_def)
qed

lemma recv_length:
  "recv n s = (Inr c, s') \<Longrightarrow> 0 \<le> n \<Longrightarrow> int (length c) \<le> n"
  by (induction n s rule: recv.induct) (auto split: if_splits)

lemma slice_take_4: "slice 2 4 (take 4 xs) = slice 2 4 xs"
  by (simp add: slice_def drop_take)

text \<open>A packet that the loop returns is the message so far followed by exactly \<open>remaining\<close> bytes.\<close>

lemma read_remaining_Some:
  "read_remaining r m sock = (Inr (Some m'), sock') \<Longrightarrow> 0 \<le> r \<Longrightarrow>
     int (length m') = int (length m) + r \<and> take (length m) m' = m"
proof (induction r m sock rule: read_remaining.induct)
  case (1 remaining message sock)
  show ?case
  proof (cases "remaining > 0")
    case False
    with "1.prems" show ?thesis by (simp add: read_remaining.simps)
  next
    case True
    obtain res s1 where rc: "recv remaining sock = (res, s1)" by (cases "recv remaining sock")
    from True rc "1.prems"(1) obtain chunk where res: "res = Inr chunk" and ne: "chunk \<noteq> []"
      and rec: "read_remaining (remaining - int (length chunk)) (message @ chunk) s1
                  = (Inr (Some m'), sock')"
      by (cases res) (auto simp: read_remaining.simps split: if_splits)
    from recv_length [of remaining sock chunk s1] rc res True
    have le: "int (length chunk) \<le> remaining" by simp
    from "1.IH" [OF True rc [symmetric] res ne rec] le
    have "int (length m') = int (length (message @ chunk)) + (remaining - int (length chunk))"
      and "take (length (message @ chunk)) m' = message @ chunk" by auto
    then show ?thesis
      by (auto dest: arg_cong [where f = "take (length message)"])
  qed
qed

text \<open>
  The loop on a stream that holds the body, cut into non-empty chunks in any way: it returns
  the message extended by the body and leaves what follows the body.
\<close>

lemma read_remaining_chunks:
  "[] \<notin> set cs \<Longrightarrow> concat cs = body @ extra \<Longrightarrow> r = int (length body) \<Longrightarrow>
   \<exists>cs'. read_remaining r m (map Chunk cs @ rest) = (Inr (Some (m @ body)), map Chunk cs' @ rest)
        \<and> concat cs' = extra \<and> [] \<notin> set cs'"
proof (induction cs arbitrary: body r m)
  case Nil
  then show ?case by (simp add: read_remaining.simps)
next
  case (Cons c cs)
  show ?case
  proof (cases "body = []")
    case True
    with Cons.prems
    have "read_remaining r m (map Chunk (c # cs) @ rest)
            = (Inr (Some (m @ body)), map Chunk (c # cs) @ rest)"
      and "concat (c # cs) = extra" by (simp_all add: read_remaining.simps)
    with Cons.prems(1) show ?thesis by blast
  next
    case False
    with Cons.prems have rpos: "r > 0" by simp
    from Cons.prems(1) have cne: "c \<noteq> []" and cs: "[] \<notin> set cs" by auto
    from Cons.prems(2) have eq: "c @ concat cs = body @ extra" by simp
    show ?thesis
    proof (cases "int (length c) \<le> r")
      case True
      with Cons.prems have lc: "length c \<le> length body" by simp
      from eq lc have b: "body = c @ drop (length c) body"
        by (metis append_eq_append_conv_if append_take_drop_id)
      with eq have rest': "concat cs = drop (length c) body @ extra"
        by (metis append_assoc same_append_eq)
      from Cons.IH [OF cs rest', of "r - int (length c)" "m @ c"] Cons.prems(3) lc
      obtain cs' where "read_remaining (r - int (length c)) (m @ c) (map Chunk cs @ rest)
           = (Inr (Some ((m @ c) @ drop (length c) body)), map Chunk cs' @ rest)"
        and "concat cs' = extra" and "[] \<notin> set cs'" by auto
      moreover have "(m @ c) @ drop (length c) body = m @ body"
        using b by (metis append_assoc)
      moreover have "read_remaining r m (map Chunk (c # cs) @ rest)
           = read_remaining (r - int (length c)) (m @ c) (map Chunk cs @ rest)"
        using True rpos cne by (subst read_remaining.simps) simp
      ultimately show ?thesis by metis
    next
      case False
      with Cons.prems(3) have lc: "length body < length c" by simp
      from eq lc have tk: "take (length body) c = body"
        by (metis append_eq_append_conv_if less_imp_le_nat)
      from eq lc have dr: "drop (length body) c @ concat cs = extra"
        by (metis append_eq_conv_conj drop_append less_imp_le_nat diff_is_0_eq drop0)
      have step: "read_remaining r m (map Chunk (c # cs) @ rest)
           = read_remaining 0 (m @ body) (map Chunk (drop (length body) c # cs) @ rest)"
        using False rpos tk Cons.prems(3) \<open>body \<noteq> []\<close>
        by (subst read_remaining.simps) simp
      have "read_remaining 0 (m @ body) (map Chunk (drop (length body) c # cs) @ rest)
           = (Inr (Some (m @ body)), map Chunk (drop (length body) c # cs) @ rest)"
        by (simp add: read_remaining.simps)
      moreover have "concat (drop (length body) c # cs) = extra" using dr by simp
      moreover have "[] \<notin> set (drop (length body) c # cs)" using cs lc by simp
      ultimately show ?thesis using step by metis
    qed
  qed
qed

lemma recv4_header:
  "length header = 4 \<Longrightarrow>
   recv 4 (Chunk (header @ p0) # S) = (Inr header, (if p0 = [] then S else Chunk p0 # S))"
  by simp

subsection \<open>Reading a frame back\<close>

text \<open>
  What holds when the first read delivers the whole header. Let \<open>frame\<close> be \<open>len\<close> bytes
  long, \<open>4 \<le> len \<le> 65535\<close>, with \<open>len\<close> in its bytes 2 and 3, big-endian. The first read
  delivers the four header bytes, alone or with some payload bytes \<open>p0\<close>; the rest of the
  payload arrives cut into the non-empty chunks \<open>ps\<close>, in any way (one byte at a time, all
  at once, with the bytes \<open>extra\<close> of what follows the frame in its last chunk or not).
  Then \<open>read_dlt_packet\<close> returns exactly \<open>frame\<close>, header included, prints nothing, and
  leaves on the socket exactly the bytes that follow the frame.
\<close>

lemma payload_split_read_back:
  assumes len: "4 \<le> len" "len \<le> 65535" "length frame = len"
    and hdr: "struct_unpack_H (slice 2 4 frame) = Inr (int len)"
    and ne: "[] \<notin> set ps"
    and split: "p0 @ concat ps = drop 4 frame @ extra"
  shows "\<exists>ps'. read_dlt_packet (Chunk (take 4 frame @ p0) # map Chunk ps @ rest)
              = (Inr (Some frame), [], map Chunk ps' @ rest)
          \<and> concat ps' = extra \<and> [] \<notin> set ps'"
proof -
  let ?h = "take 4 frame"
  let ?cs = "if p0 = [] then ps else p0 # ps"
  from len have lh: "length ?h = 4" by simp
  have r4: "recv 4 (Chunk (?h @ p0) # map Chunk ps @ rest) = (Inr ?h, map Chunk ?cs @ rest)"
    using recv4_header [OF lh, of p0 "map Chunk ps @ rest"] by simp
  have ne': "[] \<notin> set ?cs" using ne by simp
  have cc: "concat ?cs = drop 4 frame @ extra" using split by (cases "p0 = []") simp_all
  have r: "int len - 4 = int (length (drop 4 frame))" using len by simp
  from read_remaining_chunks [OF ne' cc r, of ?h rest]
  obtain ps' where rr: "read_remaining (int len - 4) ?h (map Chunk ?cs @ rest)
        = (Inr (Some (?h @ drop 4 frame)), map Chunk ps' @ rest)"
    and e: "concat ps' = extra" and n: "[] \<notin> set ps'" by blast
  have "read_dlt_packet (Chunk (?h @ p0) # map Chunk ps @ rest)
      = (Inr (Some frame), [], map Chunk ps' @ rest)"
    unfolding read_dlt_packet_def r4 using lh slice_take_4 [of frame] hdr len rr by simp
  with e n show ?thesis by blast
qed

text \<open>
  The frame \<open>00 00 00 06 01 02\<close>: header alone, then the payload one byte at a time, the
  second byte together with the first byte of the next frame; a timeout follows.
\<close>

lemma payload_split_read_back_example:
  "\<exists>ps'. read_dlt_packet
            (Chunk (take 4 [0, 0, 0, 6, 1, 2] @ []) # map Chunk [[1], [2, 9]] @ [Raise Timeout])
              = (Inr (Some [0, 0, 0, 6, 1, 2]), [], map Chunk ps' @ [Raise Timeout])
          \<and> concat ps' = [9] \<and> [] \<notin> set ps'"
  using payload_split_read_back
          [of 6 "[0, 0, 0, 6, 1, 2]" "[[1], [2, 9]]" "[]" "[9]" "[Raise Timeout]"]
  by (simp add: slice_def struct_unpack_H_def)

text \<open>
  C1 says that a frame at the head of the stream is read back whole however its bytes are
  cut into reads. The header is read by one \<open>recv(4)\<close>, so that holds only of the cuts
  that leave the header in one piece. The frame \<open>00 00 00 06 01 02\<close> delivered one byte at
  a time is not read back: the first read gives one byte, the reader returns \<open>None\<close> and
  the other five bytes stay on the socket. The same six bytes delivered all at once, or
  with the header in one read and the payload one byte at a time, are returned as the
  frame.
\<close>

theorem frame_one_byte_at_a_time_not_read_back:
  "read_dlt_packet [Chunk [0], Chunk [0], Chunk [0], Chunk [6], Chunk [1], Chunk [2]]
     = (Inr None, [], [Chunk [0], Chunk [0], Chunk [6], Chunk [1], Chunk [2]])
   \<and> read_dlt_packet [Chunk [0, 0, 0, 6, 1, 2]] = (Inr (Some [0, 0, 0, 6, 1, 2]), [], [])
   \<and> read_dlt_packet [Chunk [0, 0, 0, 6], Chunk [1], Chunk [2]]
       = (Inr (Some [0, 0, 0, 6, 1, 2]), [], [])"
  by (simp add: reader_eval)

subsection \<open>Every returned packet is a frame\<close>

text \<open>
  C8. Whatever the socket delivers, a packet returned by \<open>read_dlt_packet\<close> is as long as
  the big-endian 16-bit number in its bytes 2 and 3 says, and that length lies between 4 and
  65535.
\<close>

theorem read_dlt_packet_frame_invariant:
  assumes "read_dlt_packet sock = (Inr (Some frame), pr, sock')"
  shows "struct_unpack_H (slice 2 4 frame) = Inr (int (length frame))
         \<and> 4 \<le> length frame \<and> length frame \<le> 65535"
proof -
  obtain res s1 where rc: "recv 4 sock = (res, s1)" by (cases "recv 4 sock")
  from assms rc obtain h where res: "res = Inr h" and h4: "\<not> length h < 4"
    by (cases res) (auto simp: read_dlt_packet_def split: if_splits)
  from recv_length [of 4 sock h s1] rc res h4 have lh: "length h = 4" by simp
  from assms rc res h4 obtain n where un: "struct_unpack_H (slice 2 4 h) = Inr n"
    by (cases "struct_unpack_H (slice 2 4 h)") (auto simp: read_dlt_packet_def)
  from assms rc res h4 un have rng: "4 \<le> n" "n \<le> 65535"
    by (auto simp: read_dlt_packet_def split: if_splits)
  from assms rc res h4 un rng obtain s2 where
    rr: "read_remaining (n - 4) h s1 = (Inr (Some frame), s2)"
    by (cases "read_remaining (n - 4) h s1") (auto simp: read_dlt_packet_def)
  from read_remaining_Some [OF rr] rng lh
  have lf: "int (length frame) = n" and tk: "take 4 frame = h" by auto
  from tk slice_take_4 [of frame] have "slice 2 4 frame = slice 2 4 h" by simp
  with un lf rng show ?thesis by auto
qed

theorem read_dlt_packet_frame_invariant_witness:
  "read_dlt_packet [Chunk [0, 0, 0, 6], Chunk [1], Chunk [2, 9]]
     = (Inr (Some [0, 0, 0, 6, 1, 2]), [], [Chunk [9]])
   \<and> struct_unpack_H (slice 2 4 [0, 0, 0, 6, 1, 2]) = Inr (int (length [0, 0, 0, 6, 1, 2 :: byte]))
   \<and> 4 \<le> length [0, 0, 0, 6, 1, 2 :: byte] \<and> length [0, 0, 0, 6, 1, 2 :: byte] \<le> 65535"
proof -
  have r: "read_dlt_packet [Chunk [0, 0, 0, 6], Chunk [1], Chunk [2, 9]]
     = (Inr (Some [0, 0, 0, 6, 1, 2]), [], [Chunk [9]])"
    by (simp add: reader_eval)
  from read_dlt_packet_frame_invariant [OF r] r show ?thesis by blast
qed

subsection \<open>The length field is a 16-bit number\<close>

text \<open>
  C10. The length decoded from bytes 2 and 3 of a 4-byte header is at most 65535, so the
  test \<open>msg_len > 65535\<close> never holds and the validation rejects exactly the lengths below 4;
  whenever \<open>read_dlt_packet\<close> reports an invalid length, that length is below 4.
\<close>

theorem invalid_length_only_below_4:
  "(length std_header = 4 \<longrightarrow>
      (\<exists>msg_len. struct_unpack_H (slice 2 4 std_header) = Inr msg_len
         \<and> 0 \<le> msg_len \<and> msg_len \<le> 65535
         \<and> ((msg_len < 4 \<or> msg_len > 65535) = (msg_len < 4))))
   \<and> (\<forall>n. InvalidMessageLength n \<in> set (fst (snd (read_dlt_packet sock)))
          \<longrightarrow> 0 \<le> n \<and> n < 4)"
proof (rule conjI)
  show "length std_header = 4 \<longrightarrow>
      (\<exists>msg_len. struct_unpack_H (slice 2 4 std_header) = Inr msg_len
         \<and> 0 \<le> msg_len \<and> msg_len \<le> 65535
         \<and> ((msg_len < 4 \<or> msg_len > 65535) = (msg_len < 4)))"
  proof (rule impI)
    assume "length std_header = 4"
    then have "length (slice 2 4 std_header) = 2" by (simp add: slice_def)
    from struct_unpack_H_two [OF this] obtain n
      where n: "struct_unpack_H (slice 2 4 std_header) = Inr n" by blast
    from struct_unpack_H_range [OF n] n
    show "\<exists>msg_len. struct_unpack_H (slice 2 4 std_header) = Inr msg_len
         \<and> 0 \<le> msg_len \<and> msg_len \<le> 65535
         \<and> ((msg_len < 4 \<or> msg_len > 65535) = (msg_len < 4))"
      by auto
  qed
next
  show "\<forall>n. InvalidMessageLength n \<in> set (fst (snd (read_dlt_packet sock)))
          \<longrightarrow> 0 \<le> n \<and> n < 4"
  proof (rule allI, rule impI)
    fix n
    assume a: "InvalidMessageLength n \<in> set (fst (snd (read_dlt_packet sock)))"
    obtain res s1 where rc: "recv 4 sock = (res, s1)" by (cases "recv 4 sock")
    from a rc obtain h where res: "res = Inr h" and h4: "\<not> length h < 4"
      by (cases res) (auto simp: read_dlt_packet_def split: if_splits)
    from a rc res h4 obtain k where un: "struct_unpack_H (slice 2 4 h) = Inr k"
      by (cases "struct_unpack_H (slice 2 4 h)") (auto simp: read_dlt_packet_def)
    from a rc res h4 un have "n = k \<and> (k < 4 \<or> k > 65535)"
      by (auto simp: read_dlt_packet_def split: if_splits prod.splits)
    with struct_unpack_H_range [OF un] show "0 \<le> n \<and> n < 4" by auto
  qed
qed

theorem invalid_length_only_below_4_witness:
  "length [0, 0, 0, 2 :: byte] = 4
   \<and> (\<exists>msg_len. struct_unpack_H (slice 2 4 [0, 0, 0, 2]) = Inr msg_len
         \<and> 0 \<le> msg_len \<and> msg_len \<le> 65535
         \<and> ((msg_len < 4 \<or> msg_len > 65535) = (msg_len < 4)))
   \<and> InvalidMessageLength 2 \<in> set (fst (snd (read_dlt_packet [Chunk [0, 0, 0, 2]])))
   \<and> (0 :: int) \<le> 2 \<and> (2 :: int) < 4"
proof -
  have a: "length [0, 0, 0, 2 :: byte] = 4" by simp
  have b: "InvalidMessageLength 2 \<in> set (fst (snd (read_dlt_packet [Chunk [0, 0, 0, 2]])))"
    by (simp add: reader_eval)
  from invalid_length_only_below_4 [of "[0, 0, 0, 2]" "[Chunk [0, 0, 0, 2]]"] a b
  show ?thesis by blast
qed

subsection \<open>The header is read with a single call\<close>

text \<open>Any first read of fewer than four bytes ends the call, whatever follows on the socket.\<close>

lemma short_first_read_returns_None:
  "length c < 4 \<Longrightarrow> read_dlt_packet (Chunk c # rest) = (Inr None, [], rest)"
  by (simp add: read_dlt_packet_def)

text \<open>
  C9 says that the reader goes on reading until it has the four header bytes and returns
  \<open>None\<close> only when the stream has ended. The code calls \<open>recv(4)\<close> once. On a socket that
  delivers the header \<open>00 00 00 04\<close> in two reads of two bytes it returns \<open>None\<close> after the
  first read, the last two bytes still unread on the open socket; the same four bytes
  delivered by one read are returned as a packet.
\<close>

theorem read_dlt_packet_short_header_read:
  "read_dlt_packet [Chunk [0, 0], Chunk [0, 4]] = (Inr None, [], [Chunk [0, 4]])
   \<and> read_dlt_packet [Chunk [0, 0, 0, 4]] = (Inr (Some [0, 0, 0, 4]), [], [])"
  by (simp add: reader_eval)

subsection \<open>An invalid length\<close>

text \<open>
  C3 says that an invalid length is signalled by an error that differs from the signal for
  the end of the stream. The code returns \<open>None\<close> in both cases: the header \<open>00 00 00 02\<close>
  and a closed socket give the same result, and the loop of \<open>main\<close> reports a closed
  connection for both.
\<close>

theorem invalid_length_same_as_end_of_stream:
  "fst (read_dlt_packet [Chunk [0, 0, 0, 2]]) = fst (read_dlt_packet [])
   \<and> snd (main_loop [Chunk [0, 0, 0, 2]] 0) = [InvalidMessageLength 2, ConnectionClosedByDaemon]
   \<and> snd (main_loop [] 0) = [ConnectionClosedByDaemon]"
  by (simp add: reader_eval main_loop.simps)

text \<open>
  C3, as amended. When the header read delivers four bytes whose length field is outside
  4..65535, \<open>read_dlt_packet\<close> prints the invalid length and returns \<open>None\<close>, the value it
  also returns at the end of the stream; it returns no packet and reads nothing more: the
  socket is as the header read left it. The loop of \<open>main\<close> then reports a closed
  connection and ends.
\<close>

theorem read_dlt_packet_invalid_length:
  assumes "recv 4 sock = (Inr std_header, sock1)" and "4 \<le> length std_header"
    and "struct_unpack_H (slice 2 4 std_header) = Inr msg_len"
    and "msg_len < 4 \<or> msg_len > 65535"
  shows "read_dlt_packet sock = (Inr None, [InvalidMessageLength msg_len], sock1)
         \<and> fst (read_dlt_packet sock) = fst (read_dlt_packet [])
         \<and> main_loop sock packet_count
             = (packet_count, [InvalidMessageLength msg_len, ConnectionClosedByDaemon])"
proof -
  from assms have r: "read_dlt_packet sock = (Inr None, [InvalidMessageLength msg_len], sock1)"
    by (auto simp: read_dlt_packet_def)
  have e: "read_dlt_packet [] = (Inr None, [], [])" by (simp add: read_dlt_packet_def)
  from r have "main_loop sock packet_count
             = (packet_count, [InvalidMessageLength msg_len, ConnectionClosedByDaemon])"
    by (subst main_loop.simps) simp
  with r e show ?thesis by simp
qed

theorem read_dlt_packet_invalid_length_witness:
  "recv 4 [Chunk [0, 0, 0, 3, 7, 7]] = (Inr [0, 0, 0, 3], [Chunk [7, 7] :: sock_exn recv_event])
   \<and> 4 \<le> length [0, 0, 0, 3 :: byte]
   \<and> struct_unpack_H (slice 2 4 [0, 0, 0, 3]) = Inr 3
   \<and> read_dlt_packet [Chunk [0, 0, 0, 3, 7, 7]]
       = (Inr None, [InvalidMessageLength 3], [Chunk [7, 7]])
   \<and> fst (read_dlt_packet [Chunk [0, 0, 0, 3, 7, 7]]) = fst (read_dlt_packet [])
   \<and> main_loop [Chunk [0, 0, 0, 3, 7, 7]] 5
       = (5, [InvalidMessageLength 3, ConnectionClosedByDaemon])"
proof -
  have a: "recv 4 [Chunk [0, 0, 0, 3, 7, 7]]
             = (Inr [0, 0, 0, 3], [Chunk [7, 7] :: sock_exn recv_event])"
    by simp
  have b: "4 \<le> length [0, 0, 0, 3 :: byte]" by simp
  have c: "struct_unpack_H (slice 2 4 [0, 0, 0, 3]) = Inr 3"
    by (simp add: slice_def struct_unpack_H_def)
  have d: "(3 :: int) < 4 \<or> (3 :: int) > 65535" by simp
  from read_dlt_packet_invalid_length [OF a b c d, of 5] a b c show ?thesis by blast
qed

section \<open>Properties of the ingest loop\<close>

subsection \<open>What goes into the queue\<close>

lemma recv_stream_bytes:
  "recv n s = (Inr d, s') \<Longrightarrow> 0 < n \<Longrightarrow>
     stream_bytes s = (if d = [] then [] else d @ stream_bytes s')"
  by (induction n s rule: recv.induct) (auto split: if_splits)

lemma recv_raise_stream_bytes:
  "recv n s = (Inl e, s') \<Longrightarrow> stream_bytes s = []"
  by (induction n s rule: recv.induct) (auto split: if_splits)

lemma read_loop_passthrough:
  "read_loop reader = (r, puts) \<Longrightarrow>
     concat puts = stream_bytes reader \<and> (\<forall>d \<in> set puts. d \<noteq> [] \<and> length d \<le> 4096)"
proof (induction reader arbitrary: r puts rule: read_loop.induct)
  case (1 reader)
  obtain x reader' where rc: "recv 4096 reader = (x, reader')" by (cases "recv 4096 reader")
  show ?case
  proof (cases x)
    case (Inl e)
    with rc "1.prems" have "puts = []" by (subst (asm) read_loop.simps) simp
    with recv_raise_stream_bytes [of 4096 reader e reader'] rc Inl show ?thesis by simp
  next
    case (Inr data)
    note sb = recv_stream_bytes [of 4096 reader data reader']
    note ln = recv_length [of 4096 reader data reader']
    show ?thesis
    proof (cases "data = []")
      case True
      with rc Inr "1.prems" have "puts = []" by (subst (asm) read_loop.simps) simp
      with sb rc Inr True show ?thesis by simp
    next
      case False
      obtain r2 puts2 where rl: "read_loop reader' = (r2, puts2)" by (cases "read_loop reader'")
      with rc Inr False "1.prems" have p: "puts = data # puts2"
        by (subst (asm) read_loop.simps) auto
      from "1.IH" [OF rc [symmetric] Inr False rl]
      have "concat puts2 = stream_bytes reader'"
        and "\<forall>d \<in> set puts2. d \<noteq> [] \<and> length d \<le> 4096" by auto
      with p sb ln rc Inr False show ?thesis by simp
    qed
  qed
qed

lemma queue_puts_append [simp]: "queue_puts (xs @ ys) = queue_puts xs @ queue_puts ys"
  by (induction xs rule: queue_puts.induct) auto

lemma queue_puts_map_QueuePut [simp]: "queue_puts (map QueuePut ps) = ps"
  by (induction ps) auto

lemma queue_puts_handlers [simp]: "queue_puts (fst (handlers e)) = []"
  by (simp add: handlers_def)

lemma queue_puts_finally [simp]: "queue_puts (fst (finally_close w lost)) = []"
  by (cases w) (simp_all add: finally_close_def)

text \<open>
  C2 says that the ingest loop calls the frame reader and that every entry of the queue is
  one frame. The loop of the bridge does not call the frame reader: it puts into the queue
  whatever \<open>reader.read(4096)\<close> returns. When the upstream delivers the two frames
  \<open>00 00 00 05 01\<close> and \<open>00 00 00 04\<close> in reads of seven and two bytes, the queue gets
  those two chunks, and neither is a frame; the frame reader would have returned the first
  frame from the same reads.
\<close>

theorem queue_entries_are_raw_chunks:
  "queue_puts (read_from_dlt [Inr [Chunk [0, 0, 0, 5, 1, 0, 0], Chunk [0, 4]]])
     = [[0, 0, 0, 5, 1, 0, 0], [0, 4]]
   \<and> \<not> frame_invariant [0, 0, 0, 5, 1, 0, 0] \<and> \<not> frame_invariant [0, 4]
   \<and> fst (read_dlt_packet [Chunk [0, 0, 0, 5, 1, 0, 0], Chunk [0, 4]])
       = Inr (Some [0, 0, 0, 5, 1])"
  by (simp add: ingest_eval reader_eval frame_invariant_def)

text \<open>
  C2, as amended. While connected, the ingest loop reads up to 4096 bytes at a time and
  puts every chunk it gets into the queue, as it is, until the stream is closed or a read
  raises. The entries of one connection are non-empty, at most 4096 bytes long each, and
  joined in order they are exactly the bytes the connection has delivered.
\<close>

theorem ingest_raw_passthrough:
  "queue_puts (fst (connect_once (Inr reader) writer k)) = snd (read_loop reader)
   \<and> concat (snd (read_loop reader)) = stream_bytes reader
   \<and> (\<forall>d \<in> set (snd (read_loop reader)). d \<noteq> [] \<and> length d \<le> 4096)"
proof -
  obtain r puts where rl: "read_loop reader = (r, puts)" by (cases "read_loop reader")
  have "queue_puts (fst (connect_once (Inr reader) writer k)) = puts"
  proof (cases r)
    case None
    obtain closes raised where f: "finally_close (Some k) None = (closes, raised)"
      by (cases "finally_close (Some k) None")
    with queue_puts_finally [of "Some k" None] have "queue_puts closes = []" by simp
    with rl None f show ?thesis by (simp add: connect_once_def)
  next
    case (Some e)
    obtain acts go_on where h: "handlers e = (acts, go_on)" by (cases "handlers e")
    with queue_puts_handlers [of e] have a: "queue_puts acts = []" by simp
    obtain closes raised where
      f: "finally_close (Some k) (if e = CancelledError then None else Some e) = (closes, raised)"
      by (cases "finally_close (Some k) (if e = CancelledError then None else Some e)")
    with queue_puts_finally [of "Some k" "if e = CancelledError then None else Some e"]
    have "queue_puts closes = []" by simp
    with rl Some h a f show ?thesis by (simp add: connect_once_def)
  qed
  with read_loop_passthrough [OF rl] rl show ?thesis by simp
qed

theorem ingest_raw_passthrough_witness:
  "queue_puts (fst (connect_once (Inr [Chunk [0, 0, 0, 5, 1, 0, 0], Chunk [0, 4]]) None 0))
     = [[0, 0, 0, 5, 1, 0, 0], [0, 4]]
   \<and> snd (read_loop [Chunk [0, 0, 0, 5, 1, 0, 0], Chunk [0, 4]])
       = [[0, 0, 0, 5, 1, 0, 0], [0, 4]]
   \<and> stream_bytes [Chunk [0, 0, 0, 5, 1, 0, 0], Chunk [0, 4] :: aio_exn recv_event]
       = [0, 0, 0, 5, 1, 0, 0, 0, 4]"
proof -
  have r: "snd (read_loop [Chunk [0, 0, 0, 5, 1, 0, 0], Chunk [0, 4]])
             = [[0, 0, 0, 5, 1, 0, 0], [0, 4]]"
    by (simp add: read_loop.simps)
  from ingest_raw_passthrough [of "[Chunk [0, 0, 0, 5, 1, 0, 0], Chunk [0, 4]]" None 0] r
  show ?thesis by simp
qed

subsection \<open>Reconnecting\<close>

text \<open>A refused or otherwise failed attempt to connect: the loop sleeps 5 seconds and goes on.\<close>

lemma failed_connect_sleeps_and_goes_on:
  "e \<noteq> CancelledError \<Longrightarrow>
     connect_once (Inl e) writer k
       = (Connect # Sleep 5 # fst (finally_close writer None), Running, writer, k)"
  by (cases writer) (simp_all add: connect_once_def handlers_def finally_close_def round_end_def)

text \<open>
  A connection that the upstream closes: the writer is closed and the loop goes on, with
  no sleep before the next attempt.
\<close>

lemma closed_stream_goes_on_at_once:
  "fst (read_loop reader) = None \<Longrightarrow>
     connect_once (Inr reader) writer k
       = (Connect # Connected k # map QueuePut (snd (read_loop reader)) @ [WriterClose k],
          Running, Some k, k + 1)"
  by (cases "read_loop reader") (simp add: connect_once_def finally_close_def round_end_def)

text \<open>
  A read that raises: the \<open>except\<close> clause sleeps 5 seconds, the \<open>finally\<close> clause closes
  the writer, and \<open>wait_closed\<close> raises the exception again, which ends the task.
\<close>

lemma read_error_ends_task:
  "fst (read_loop reader) = Some e \<Longrightarrow> e \<noteq> CancelledError \<Longrightarrow>
     connect_once (Inr reader) writer k
       = (Connect # Connected k # map QueuePut (snd (read_loop reader))
            @ [Sleep 5, WriterClose k],
          Uncaught e, Some k, k + 1)"
  by (cases "read_loop reader")
     (simp add: connect_once_def handlers_def finally_close_def round_end_def)

text \<open>
  C4 says that after every failure, an I/O error on the connection included, the loop
  releases the connection, waits 5 seconds and connects again. The code does so after a
  refused connection. After a read on the connection has raised, it sleeps and closes the
  writer, but the exception leaves the \<open>finally\<close> clause and the task: the next connection,
  which would deliver data, is never tried. After a connection that the upstream closes,
  the next attempt follows with no sleep.
\<close>

theorem read_error_ends_ingest_task:
  "read_from_dlt [Inr [Chunk [1], Raise OtherError], Inr [Chunk [2]]]
     = [Connect, Connected 0, QueuePut [1], Sleep 5, WriterClose 0]
   \<and> read_from_dlt_end [Inr [Chunk [1], Raise OtherError], Inr [Chunk [2]]] = Uncaught OtherError
   \<and> read_from_dlt [Inl ConnectionRefusedError, Inr [Chunk [2]]]
       = [Connect, Sleep 5, Connect, Connected 0, QueuePut [2], WriterClose 0]
   \<and> read_from_dlt_end [Inl ConnectionRefusedError, Inr [Chunk [2]]] = Running
   \<and> read_from_dlt [Inr [Chunk [1]], Inr [Chunk [2]]]
       = [Connect, Connected 0, QueuePut [1], WriterClose 0,
          Connect, Connected 1, QueuePut [2], WriterClose 1]"
  by (simp add: ingest_eval)

section \<open>Properties of the broadcaster\<close>

subsection \<open>One round\<close>

lemma send_to_all_queue [simp]:
  "message_queue (send_to_all send data cs st) = message_queue st"
  by (induction cs arbitrary: st) (auto split: send_outcome.splits)

lemma send_to_all_sent:
  "\<forall>w \<in> set cs. send w \<noteq> SendCancelled \<Longrightarrow>
   sent (send_to_all send data cs st)
     = sent st @ map (\<lambda>w. (w, data)) (filter (\<lambda>w. send w = Delivered) cs)"
  by (induction cs arbitrary: st) (auto split: send_outcome.splits)

lemma send_to_all_broadcasting:
  "\<forall>w \<in> set cs. send w \<noteq> SendCancelled \<Longrightarrow>
   broadcasting (send_to_all send data cs st) = broadcasting st"
  by (induction cs arbitrary: st) (auto split: send_outcome.splits)

lemma send_to_all_clients:
  "\<forall>w \<in> set cs. send w \<noteq> SendCancelled \<Longrightarrow>
   websocket_clients (send_to_all send data cs st)
     = filter (\<lambda>w. w \<notin> set (filter (\<lambda>w. send w = SendFailed) cs)) (websocket_clients st)"
proof (induction cs arbitrary: st)
  case Nil
  then show ?case by simp
next
  case (Cons w cs)
  show ?case
  proof (cases "send w")
    case Delivered
    with Cons show ?thesis by simp
  next
    case SendFailed
    have "filter (\<lambda>x. x \<notin> set (filter (\<lambda>w. send w = SendFailed) cs))
            (removeAll w (websocket_clients st))
        = filter (\<lambda>x. x \<notin> set (filter (\<lambda>w. send w = SendFailed) (w # cs)))
            (websocket_clients st)"
      using SendFailed by (auto simp: removeAll_filter_not_eq intro: filter_cong)
    with Cons SendFailed show ?thesis by (simp add: set_discard_def)
  next
    case SendCancelled
    with Cons.prems show ?thesis by simp
  qed
qed

lemma filter_not_failed:
  "filter (\<lambda>w. w \<notin> set (filter (\<lambda>w. send w = SendFailed) cs)) cs
     = filter (\<lambda>w. send w \<noteq> SendFailed) cs"
  by (rule filter_cong) auto

text \<open>A round in which no send is cancelled, in closed form.\<close>

lemma broadcast_messages_round:
  assumes "broadcasting st" and "message_queue st = data # q"
    and nc: "\<forall>w \<in> set (websocket_clients st). send w \<noteq> SendCancelled"
  shows "broadcasting (broadcast_messages send st)"
    and "message_queue (broadcast_messages send st) = q"
    and "websocket_clients (broadcast_messages send st)
           = filter (\<lambda>w. send w \<noteq> SendFailed) (websocket_clients st)"
    and "sent (broadcast_messages send st)
           = sent st @ map (\<lambda>w. (w, data))
                         (filter (\<lambda>w. send w = Delivered) (websocket_clients st))"
proof -
  let ?st1 = "st\<lparr>message_queue := q\<rparr>"
  have b: "broadcast_messages send st = send_to_all send data (websocket_clients st) ?st1"
    using assms(1,2) by (cases "websocket_clients st = []") (simp_all add: broadcast_messages_def)
  show "broadcasting (broadcast_messages send st)"
    unfolding b using send_to_all_broadcasting [OF nc, of data ?st1] assms(1) by simp
  show "message_queue (broadcast_messages send st) = q"
    unfolding b by simp
  show "websocket_clients (broadcast_messages send st)
           = filter (\<lambda>w. send w \<noteq> SendFailed) (websocket_clients st)"
    unfolding b
    using send_to_all_clients [OF nc, of data ?st1] filter_not_failed [of send "websocket_clients st"]
    by simp
  show "sent (broadcast_messages send st)
           = sent st @ map (\<lambda>w. (w, data))
                         (filter (\<lambda>w. send w = Delivered) (websocket_clients st))"
    unfolding b using send_to_all_sent [OF nc, of data ?st1] by simp
qed

text \<open>
  C6. In one round over the registry in which the broadcaster is not cancelled, every
  websocket whose send fails is removed from the registry and no other is; the data is
  sent to every websocket of the registry whose send does not fail, whatever failed before
  it in the round; and the broadcaster is still running after the round: no failure of a
  send leaves it.
\<close>

theorem broadcast_round_independent_delivery:
  assumes "broadcasting st" and "message_queue st = data # q"
    and "\<forall>w \<in> set (websocket_clients st). send w \<noteq> SendCancelled"
  shows "broadcasting (broadcast_messages send st)
       \<and> message_queue (broadcast_messages send st) = q
       \<and> websocket_clients (broadcast_messages send st)
           = filter (\<lambda>w. send w \<noteq> SendFailed) (websocket_clients st)
       \<and> sent (broadcast_messages send st)
           = sent st @ map (\<lambda>w. (w, data))
                         (filter (\<lambda>w. send w = Delivered) (websocket_clients st))"
  using broadcast_messages_round [OF assms] by simp

text \<open>Two clients, the send to the first fails: the second gets the frame, the first is gone.\<close>

theorem broadcast_round_independent_delivery_witness:
  "broadcasting
     \<lparr>message_queue = [[0, 0, 0, 4]], websocket_clients = [1, 2], sent = [], broadcasting = True\<rparr>
   \<and> broadcast_messages (\<lambda>w. if w = 1 then SendFailed else Delivered)
       \<lparr>message_queue = [[0, 0, 0, 4]], websocket_clients = [1, 2], sent = [],
        broadcasting = True\<rparr>
     = \<lparr>message_queue = [], websocket_clients = [2], sent = [(2, [0, 0, 0, 4])],
        broadcasting = True\<rparr>"
  using broadcast_round_independent_delivery
     [of "\<lparr>message_queue = [[0, 0, 0, 4]], websocket_clients = [1, 2], sent = [],
           broadcasting = True\<rparr>"
         "[0, 0, 0, 4]" "[]" "\<lambda>w. if w = 1 then SendFailed else Delivered"]
  by (simp add: broadcast_messages_def set_discard_def)

subsection \<open>Where sent data comes from\<close>

lemma send_to_all_sent_subset:
  "snd ` set (sent (send_to_all send data cs st)) \<subseteq> snd ` set (sent st) \<union> {data}"
proof (induction cs arbitrary: st)
  case Nil
  then show ?case by auto
next
  case (Cons w cs)
  show ?case
  proof (cases "send w")
    case Delivered
    with Cons.IH [of "st\<lparr>sent := sent st @ [(w, data)]\<rparr>"] show ?thesis by auto
  next
    case SendFailed
    with Cons.IH [of "st\<lparr>websocket_clients := set_discard w (websocket_clients st)\<rparr>"]
    show ?thesis by auto
  next
    case SendCancelled
    then show ?thesis by auto
  qed
qed

lemma broadcast_messages_data_subset:
  "snd ` set (sent (broadcast_messages send st))
       \<union> set (message_queue (broadcast_messages send st))
     \<subseteq> snd ` set (sent st) \<union> set (message_queue st)"
proof (cases "broadcasting st \<and> message_queue st \<noteq> []")
  case False
  then show ?thesis by (auto simp: broadcast_messages_def split: list.splits)
next
  case True
  then obtain data q where q: "message_queue st = data # q" by (cases "message_queue st") auto
  show ?thesis
  proof (cases "websocket_clients st = []")
    case True
    with q \<open>broadcasting st \<and> message_queue st \<noteq> []\<close> show ?thesis
      by (auto simp: broadcast_messages_def)
  next
    case False
    with q True have b: "broadcast_messages send st
        = send_to_all send data (websocket_clients st) (st\<lparr>message_queue := q\<rparr>)"
      by (simp add: broadcast_messages_def)
    from send_to_all_sent_subset [of send data "websocket_clients st" "st\<lparr>message_queue := q\<rparr>"] q
    show ?thesis unfolding b by auto
  qed
qed

lemma handle_data_subset:
  "snd ` set (sent (handle e st)) \<union> set (message_queue (handle e st))
     \<subseteq> snd ` set (sent st) \<union> set (message_queue st) \<union> set (puts_of [e])"
proof (cases e)
  case (Broadcast send)
  with broadcast_messages_data_subset [of send st] show ?thesis by auto
qed auto

lemma puts_of_Cons_append: "puts_of (e # es) = puts_of [e] @ puts_of es"
  by (cases e) auto

text \<open>Whatever is sent or queued was sent before, was in the queue, or has been put since.\<close>

lemma run_data_subset:
  "snd ` set (sent (run evs st)) \<union> set (message_queue (run evs st))
     \<subseteq> snd ` set (sent st) \<union> set (message_queue st) \<union> set (puts_of evs)"
proof (induction evs arbitrary: st)
  case Nil
  then show ?case by simp
next
  case (Cons e es)
  have "set (puts_of (e # es)) = set (puts_of [e]) \<union> set (puts_of es)"
    using puts_of_Cons_append [of e es] by (metis set_append)
  with Cons.IH [of "handle e st"] handle_data_subset [of e st]
  show ?case by (simp only: run.simps) blast
qed

lemma delivered_subset_sent: "set (delivered c st) \<subseteq> snd ` set (sent st)"
  by (auto simp: delivered_def)

subsection \<open>No clients\<close>

text \<open>
  C7. When the broadcaster takes data from the queue while the registry is empty, the only
  change of the state is that the data has left the queue: it is sent to nobody and kept
  nowhere, and the bridge goes on exactly as if the data had never been in the queue. In
  particular, if the same bytes were not sent before and are not put into the queue again,
  no websocket, whenever it registers, receives them.
\<close>

theorem frame_dropped_when_no_clients:
  assumes "broadcasting st" and "websocket_clients st = []" and "message_queue st = data # q"
  shows "broadcast_messages send st = st\<lparr>message_queue := q\<rparr>
       \<and> run (Broadcast send # evs) st = run evs (st\<lparr>message_queue := q\<rparr>)
       \<and> (data \<notin> snd ` set (sent st) \<and> data \<notin> set q \<and> data \<notin> set (puts_of evs)
            \<longrightarrow> data \<notin> set (delivered c (run (Broadcast send # evs) st)))"
proof -
  from assms have b: "broadcast_messages send st = st\<lparr>message_queue := q\<rparr>"
    by (simp add: broadcast_messages_def)
  then have r: "run (Broadcast send # evs) st = run evs (st\<lparr>message_queue := q\<rparr>)" by simp
  have "data \<notin> set (delivered c (run (Broadcast send # evs) st))"
    if "data \<notin> snd ` set (sent st)" "data \<notin> set q" "data \<notin> set (puts_of evs)"
  proof -
    from run_data_subset [of evs "st\<lparr>message_queue := q\<rparr>"] that
    have "data \<notin> snd ` set (sent (run evs (st\<lparr>message_queue := q\<rparr>)))" by auto
    with delivered_subset_sent [of c "run evs (st\<lparr>message_queue := q\<rparr>)"] r
    show ?thesis by auto
  qed
  with b r show ?thesis by blast
qed

text \<open>
  Two frames are queued and nobody is registered; the first is taken and dropped, then
  client 3 registers: it receives the second frame only.
\<close>

theorem frame_dropped_when_no_clients_witness:
  "broadcast_messages (\<lambda>w. Delivered) (initial\<lparr>message_queue := [[0, 0, 0, 4], [0, 0, 0, 5, 1]]\<rparr>)
     = initial\<lparr>message_queue := [[0, 0, 0, 5, 1]]\<rparr>
   \<and> delivered 3
       (run [Broadcast (\<lambda>w. Delivered), ClientConnected 3, Broadcast (\<lambda>w. Delivered),
             Broadcast (\<lambda>w. Delivered)]
          (initial\<lparr>message_queue := [[0, 0, 0, 4], [0, 0, 0, 5, 1]]\<rparr>))
     = [[0, 0, 0, 5, 1]]
   \<and> [0, 0, 0, 4] \<notin> set (delivered 3
       (run [Broadcast (\<lambda>w. Delivered), ClientConnected 3, Broadcast (\<lambda>w. Delivered),
             Broadcast (\<lambda>w. Delivered)]
          (initial\<lparr>message_queue := [[0, 0, 0, 4], [0, 0, 0, 5, 1]]\<rparr>)))"
proof -
  let ?st = "initial\<lparr>message_queue := [[0, 0, 0, 4], [0, 0, 0, 5, 1]]\<rparr>"
  let ?evs = "[ClientConnected 3, Broadcast (\<lambda>w. Delivered), Broadcast (\<lambda>w. Delivered)]"
  have 1: "broadcasting ?st" "websocket_clients ?st = []"
    "message_queue ?st = [0, 0, 0, 4] # [[0, 0, 0, 5, 1]]"
    by (simp_all add: initial_def)
  have 2: "[0, 0, 0, 4] \<notin> snd ` set (sent ?st) \<and> [0, 0, 0, 4] \<notin> set [[0, 0, 0, 5, 1 :: byte]]
      \<and> [0, 0, 0, 4] \<notin> set (puts_of ?evs)"
    by (simp add: initial_def)
  have 3: "delivered 3 (run (Broadcast (\<lambda>w. Delivered) # ?evs) ?st) = [[0, 0, 0, 5, 1]]"
    by (simp add: bridge_eval)
  from frame_dropped_when_no_clients [OF 1, of "\<lambda>w. Delivered" ?evs 3] 2 3
  show ?thesis by (simp add: initial_def)
qed

subsection \<open>Order\<close>

lemma filter_eq_single:
  "distinct cs \<Longrightarrow> c \<in> set cs \<Longrightarrow> filter (\<lambda>w. w = c) cs = [c]"
  by (induction cs) (auto simp: filter_empty_conv)

lemma delivered_round:
  assumes "distinct cs" and "c \<in> set cs" and "send c = Delivered"
  shows "map snd (filter (\<lambda>(w, d). w = c)
                    (map (\<lambda>w. (w, data)) (filter (\<lambda>w. send w = Delivered) cs)))
           = [data]"
proof -
  have "filter (\<lambda>(w, d). w = c) (map (\<lambda>w. (w, data)) (filter (\<lambda>w. send w = Delivered) cs))
      = map (\<lambda>w. (w, data)) (filter (\<lambda>w. w = c) (filter (\<lambda>w. send w = Delivered) cs))"
    by (simp add: filter_map comp_def)
  moreover from assms have "filter (\<lambda>w. w = c) (filter (\<lambda>w. send w = Delivered) cs) = [c]"
    by (intro filter_eq_single) auto
  ultimately show ?thesis by simp
qed

text \<open>
  One event keeps a registered client registered; a round that finds the queue non-empty
  sends its head to the client and takes it from the queue, a put adds to the queue.
\<close>

lemma handle_step:
  assumes d: "distinct (websocket_clients st)" and c: "c \<in> set (websocket_clients st)"
    and b: "broadcasting st"
    and e1: "e \<noteq> ClientClosed c" and e2: "e \<noteq> CancelBroadcast"
    and e3: "\<forall>send. e = Broadcast send \<longrightarrow>
               send c = Delivered \<and> (\<forall>w. send w \<noteq> SendCancelled)"
  shows "distinct (websocket_clients (handle e st)) \<and> c \<in> set (websocket_clients (handle e st))
       \<and> broadcasting (handle e st)
       \<and> delivered c (handle e st)
           = delivered c st
             @ take (rounds_served (length (message_queue st)) [e]) (message_queue st @ puts_of [e])
       \<and> message_queue (handle e st)
           = drop (rounds_served (length (message_queue st)) [e]) (message_queue st @ puts_of [e])"
proof (cases e)
  case (Put data)
  with d c b show ?thesis by (simp add: delivered_def)
next
  case (ClientConnected w)
  with d c b show ?thesis by (simp add: delivered_def set_add_def)
next
  case (ClientClosed w)
  with d c b e1 show ?thesis by (auto simp: delivered_def set_discard_def distinct_removeAll)
next
  case CancelBroadcast
  with e2 show ?thesis by simp
next
  case (Broadcast send)
  with e3 have sc: "send c = Delivered" and nc: "\<forall>w. send w \<noteq> SendCancelled"
    by auto
  show ?thesis
  proof (cases "message_queue st")
    case Nil
    with Broadcast d c b show ?thesis by (simp add: broadcast_messages_def)
  next
    case (Cons data q)
    from nc have nc': "\<forall>w \<in> set (websocket_clients st). send w \<noteq> SendCancelled" by simp
    note r = broadcast_messages_round [OF b Cons nc']
    from r(4) delivered_round [of "websocket_clients st" c send data] d c sc
    have "delivered c (broadcast_messages send st) = delivered c st @ [data]"
      by (simp add: delivered_def)
    with r d c sc Cons Broadcast show ?thesis by simp
  qed
qed

lemma rounds_served_Cons:
  "rounds_served n (e # es)
     = rounds_served n [e]
       + rounds_served (n + length (puts_of [e]) - rounds_served n [e]) es"
  by (cases e; cases n) simp_all

lemma rounds_served_single_le: "rounds_served n [e] \<le> n + length (puts_of [e])"
  by (cases e; cases n) simp_all

lemma take_take_drop:
  assumes "k \<le> length xs"
  shows "take k xs @ take m (drop k xs @ ys) = take (k + m) (xs @ ys)"
proof -
  from assms have "take k xs = take k (xs @ ys)" and "drop k xs @ ys = drop k (xs @ ys)"
    by simp_all
  then show ?thesis by (simp only: take_add)
qed

lemma drop_drop_append:
  "k \<le> length xs \<Longrightarrow> drop m (drop k xs @ ys) = drop (k + m) (xs @ ys)"
  by (simp add: add.commute)

text \<open>
  C5. Let client \<open>c\<close> be registered and stay so: its connection is not closed, no send to
  it fails, and the broadcaster is not cancelled. Then after any events, \<open>c\<close> has received,
  after what it had received before, exactly the first \<open>k\<close> entries of the sequence made
  of the queue at the start followed by the data put since, in that order, and the queue
  holds the rest of that sequence; \<open>k\<close> is the number of rounds that found the queue
  non-empty. Every such round delivers the entry at the head of the queue to \<open>c\<close>, so the
  data reaches \<open>c\<close> in the order it was put, with no entry moved, left out or repeated.
\<close>

theorem frames_delivered_in_order:
  assumes "distinct (websocket_clients st)" and "c \<in> set (websocket_clients st)"
    and "broadcasting st"
    and "ClientClosed c \<notin> set evs" and "CancelBroadcast \<notin> set evs"
    and "\<forall>send. Broadcast send \<in> set evs
           \<longrightarrow> send c = Delivered \<and> (\<forall>w. send w \<noteq> SendCancelled)"
  shows "delivered c (run evs st)
           = delivered c st
             @ take (rounds_served (length (message_queue st)) evs) (message_queue st @ puts_of evs)
         \<and> message_queue (run evs st)
           = drop (rounds_served (length (message_queue st)) evs) (message_queue st @ puts_of evs)
         \<and> c \<in> set (websocket_clients (run evs st))"
  using assms
proof (induction evs arbitrary: st)
  case Nil
  then show ?case by simp
next
  case (Cons e es)
  from Cons.prems have e1: "e \<noteq> ClientClosed c" and e2: "e \<noteq> CancelBroadcast"
    and e3: "\<forall>send. e = Broadcast send \<longrightarrow>
               send c = Delivered \<and> (\<forall>w. send w \<noteq> SendCancelled)"
    by auto
  let ?Q = "message_queue st"
  let ?k = "rounds_served (length ?Q) [e]"
  let ?Q1 = "?Q @ puts_of [e]"
  from handle_step [OF Cons.prems(1-3) e1 e2 e3]
  have h: "distinct (websocket_clients (handle e st))" "c \<in> set (websocket_clients (handle e st))"
    "broadcasting (handle e st)"
    "delivered c (handle e st) = delivered c st @ take ?k ?Q1"
    "message_queue (handle e st) = drop ?k ?Q1"
    by simp_all
  from Cons.prems have r: "ClientClosed c \<notin> set es" "CancelBroadcast \<notin> set es"
    "\<forall>send. Broadcast send \<in> set es
       \<longrightarrow> send c = Delivered \<and> (\<forall>w. send w \<noteq> SendCancelled)"
    by auto
  have kle: "?k \<le> length ?Q1" using rounds_served_single_le [of "length ?Q" e] by simp
  let ?m = "rounds_served (length (drop ?k ?Q1)) es"
  have "length (drop ?k ?Q1) = length ?Q + length (puts_of [e]) - ?k"
    by (simp only: length_drop length_append)
  then have total: "rounds_served (length ?Q) (e # es) = ?k + ?m"
    using rounds_served_Cons [of "length ?Q" e es] by (simp only:)
  have all: "?Q @ puts_of (e # es) = ?Q1 @ puts_of es"
    using puts_of_Cons_append [of e es] by simp
  from Cons.IH [OF h(1-3) r] h(4,5)
  have D: "delivered c (run es (handle e st))
             = (delivered c st @ take ?k ?Q1) @ take ?m (drop ?k ?Q1 @ puts_of es)"
    and Q: "message_queue (run es (handle e st)) = drop ?m (drop ?k ?Q1 @ puts_of es)"
    and M: "c \<in> set (websocket_clients (run es (handle e st)))"
    by simp_all
  from D take_take_drop [OF kle, of ?m "puts_of es"]
  have "delivered c (run (e # es) st)
          = delivered c st @ take (?k + ?m) (?Q1 @ puts_of es)" by simp
  moreover from Q drop_drop_append [OF kle, of ?m "puts_of es"]
  have "message_queue (run (e # es) st) = drop (?k + ?m) (?Q1 @ puts_of es)" by simp
  ultimately show ?case using M total all by simp
qed

text \<open>
  Three frames are put and broadcast while clients fail and come; client 1, registered
  throughout and for a time the only client, has received the three in the order they were
  put, and the queue is empty.
\<close>

theorem frames_delivered_in_order_witness:
  "delivered 1
     (run [Put [0, 0, 0, 4], Broadcast (\<lambda>w. if w = 2 then SendFailed else Delivered),
           Broadcast (\<lambda>w. Delivered), Put [0, 0, 0, 5, 1], Broadcast (\<lambda>w. Delivered),
           Put [0, 0, 0, 5, 2], ClientConnected 7, Broadcast (\<lambda>w. Delivered)]
        (initial\<lparr>websocket_clients := [1, 2]\<rparr>))
     = [[0, 0, 0, 4], [0, 0, 0, 5, 1], [0, 0, 0, 5, 2]]
   \<and> message_queue
     (run [Put [0, 0, 0, 4], Broadcast (\<lambda>w. if w = 2 then SendFailed else Delivered),
           Broadcast (\<lambda>w. Delivered), Put [0, 0, 0, 5, 1], Broadcast (\<lambda>w. Delivered),
           Put [0, 0, 0, 5, 2], ClientConnected 7, Broadcast (\<lambda>w. Delivered)]
        (initial\<lparr>websocket_clients := [1, 2]\<rparr>)) = []
   \<and> 1 \<in> set (websocket_clients
     (run [Put [0, 0, 0, 4], Broadcast (\<lambda>w. if w = 2 then SendFailed else Delivered),
           Broadcast (\<lambda>w. Delivered), Put [0, 0, 0, 5, 1], Broadcast (\<lambda>w. Delivered),
           Put [0, 0, 0, 5, 2], ClientConnected 7, Broadcast (\<lambda>w. Delivered)]
        (initial\<lparr>websocket_clients := [1, 2]\<rparr>)))"
proof -
  let ?evs = "[Put [0, 0, 0, 4], Broadcast (\<lambda>w. if w = 2 then SendFailed else Delivered),
           Broadcast (\<lambda>w. Delivered), Put [0, 0, 0, 5, 1], Broadcast (\<lambda>w. Delivered),
           Put [0, 0, 0, 5, 2], ClientConnected 7, Broadcast (\<lambda>w. Delivered)]"
  let ?st = "initial\<lparr>websocket_clients := [1, 2]\<rparr>"
  have 1: "distinct (websocket_clients ?st)" "1 \<in> set (websocket_clients ?st)" "broadcasting ?st"
    by (simp_all add: initial_def)
  have 2: "ClientClosed 1 \<notin> set ?evs" "CancelBroadcast \<notin> set ?evs" by simp_all
  have 3: "\<forall>send. Broadcast send \<in> set ?evs
             \<longrightarrow> send 1 = Delivered \<and> (\<forall>w. send w \<noteq> SendCancelled)"
    by auto
  from frames_delivered_in_order [OF 1 2 3]
  show ?thesis by (simp add: initial_def delivered_def)
qed

end
